theory Spec2Isabelle
  imports Main "HOL-Library.Char_ord" "HOL-Library.List_Lexorder" "HOL-Library.Multiset"
begin

section \<open>Python values and string primitives\<close>

text \<open>
  The citation core of \<^verbatim>\<open>research/citation_manager.py\<close> and
  \<^verbatim>\<open>utils/validators.py\<close> is embedded here. A Python \<^verbatim>\<open>str\<close> is a \<open>string\<close>;
  a character stands for the code point of the same number, so the model covers the
  texts whose code points are below 256. Exceptions are values: a function that can
  raise returns \<open>error + 'a\<close>, with \<open>Inl\<close> the exception.
\<close>

datatype error = IndexError | ValueError

text \<open>The year of a record is an \<^verbatim>\<open>int\<close> or a \<^verbatim>\<open>str\<close> (the forms hand over strings).\<close>

datatype pyval = PyInt int | PyStr string

definition dq :: string where
  "dq = [CHR 0x22]"

definition is_space :: "char \<Rightarrow> bool" where
  \<comment> \<open>\<^verbatim>\<open>str.isspace\<close> and the class \<^verbatim>\<open>\s\<close> of a \<^verbatim>\<open>str\<close> pattern, below code point 256\<close>
  "is_space c \<longleftrightarrow> c \<in> set [CHR 0x09, CHR 0x0A, CHR 0x0B, CHR 0x0C, CHR 0x0D,
     CHR 0x1C, CHR 0x1D, CHR 0x1E, CHR 0x1F, CHR 0x20, CHR 0x85, CHR 0xA0]"

definition is_digit :: "char \<Rightarrow> bool" where
  \<comment> \<open>the class \<^verbatim>\<open>\d\<close>, below code point 256\<close>
  "is_digit c \<longleftrightarrow> c \<in> set ''0123456789''"

definition is_upper :: "char \<Rightarrow> bool" where
  \<comment> \<open>the class \<^verbatim>\<open>[A-Z]\<close>\<close>
  "is_upper c \<longleftrightarrow> c \<in> set ''ABCDEFGHIJKLMNOPQRSTUVWXYZ''"

definition is_lower :: "char \<Rightarrow> bool" where
  "is_lower c \<longleftrightarrow> c \<in> set ''abcdefghijklmnopqrstuvwxyz''"

definition strip :: "string \<Rightarrow> string" where
  \<comment> \<open>\<^verbatim>\<open>str.strip()\<close>\<close>
  "strip s = rev (dropWhile is_space (rev (dropWhile is_space s)))"

fun split_acc :: "string \<Rightarrow> string \<Rightarrow> string list" where
  "split_acc cur [] = (if cur = [] then [] else [cur])"
| "split_acc cur (c # cs) =
     (if is_space c then (if cur = [] then split_acc [] cs else cur # split_acc [] cs)
      else split_acc (cur @ [c]) cs)"

definition split :: "string \<Rightarrow> string list" where
  \<comment> \<open>\<^verbatim>\<open>str.split()\<close> with no argument: the maximal runs of non-whitespace\<close>
  "split s = split_acc [] s"

fun join :: "string \<Rightarrow> string list \<Rightarrow> string" where
  \<comment> \<open>\<^verbatim>\<open>sep.join(xs)\<close>\<close>
  "join sep [] = []"
| "join sep [x] = x"
| "join sep (x # y # ys) = x @ sep @ join sep (y # ys)"

definition py_get :: "'a list \<Rightarrow> nat \<Rightarrow> error + 'a" where
  \<comment> \<open>\<^verbatim>\<open>xs[i]\<close> for a literal index \<open>i \<ge> 0\<close>\<close>
  "py_get xs i = (if i < length xs then Inr (xs ! i) else Inl IndexError)"

definition digit_char :: "nat \<Rightarrow> char" where
  "digit_char d = ''0123456789'' ! d"

function str_nat :: "nat \<Rightarrow> string" where
  "str_nat n = (if n < 10 then [digit_char n] else str_nat (n div 10) @ [digit_char (n mod 10)])"
  by pat_completeness auto
termination
  by (relation "measure (\<lambda>n. n)") auto

declare str_nat.simps [simp del]

definition str_int :: "int \<Rightarrow> string" where
  \<comment> \<open>\<^verbatim>\<open>str(i)\<close> of an \<^verbatim>\<open>int\<close>\<close>
  "str_int i = (if i < 0 then CHR ''-'' # str_nat (nat (- i)) else str_nat (nat i))"

fun py_str :: "pyval \<Rightarrow> string" where
  \<comment> \<open>what \<^verbatim>\<open>f"{v}"\<close> renders\<close>
  "py_str (PyInt i) = str_int i"
| "py_str (PyStr s) = s"

fun py_truthy :: "pyval \<Rightarrow> bool" where
  "py_truthy (PyInt i) = (i \<noteq> 0)"
| "py_truthy (PyStr s) = (s \<noteq> [])"

section \<open>The formatter\<close>

text \<open>
  Each \<^verbatim>\<open>_format_*\<close> method first computes the local \<^verbatim>\<open>author_str\<close>, then
  appends the clauses of the fields that are not empty. The value of \<^verbatim>\<open>author_str\<close>
  is a function of its own here, so that the properties of the authors clause can name it.
\<close>

definition apa_author_str :: "string list \<Rightarrow> error + string" where
  "apa_author_str auths =
     (if length auths = 1 then py_get auths 0
      else if length auths = 2 then
        (case py_get auths 0 of Inl e \<Rightarrow> Inl e | Inr a0 \<Rightarrow>
          (case py_get auths 1 of Inl e \<Rightarrow> Inl e | Inr a1 \<Rightarrow> Inr (a0 @ '' & '' @ a1)))
      else (case py_get auths 0 of Inl e \<Rightarrow> Inl e | Inr a0 \<Rightarrow> Inr (a0 @ '' et al.'')))"

definition format_apa ::
  "string list \<Rightarrow> pyval \<Rightarrow> string \<Rightarrow> string \<Rightarrow> string \<Rightarrow> string \<Rightarrow> string \<Rightarrow> string
     \<Rightarrow> error + string" where
  "format_apa auths yr ttl jrnl vol iss pgs doi =
     (case apa_author_str auths of Inl e \<Rightarrow> Inl e | Inr author_str \<Rightarrow>
        Inr (author_str @ '' ('' @ py_str yr @ ''). '' @ ttl @ ''.''
          @ (if jrnl \<noteq> [] then
               '' '' @ jrnl
               @ (if vol \<noteq> [] then '', '' @ vol @ (if iss \<noteq> [] then ''('' @ iss @ '')'' else [])
                  else [])
               @ (if pgs \<noteq> [] then '', '' @ pgs else [])
             else [])
          @ (if doi \<noteq> [] then ''. https://doi.org/'' @ doi else [])))"

definition mla_author_str :: "string list \<Rightarrow> error + string" where
  "mla_author_str auths =
     (if length auths = 1 then py_get auths 0
      else if length auths = 2 then
        (case py_get auths 0 of Inl e \<Rightarrow> Inl e | Inr a0 \<Rightarrow>
          (case py_get auths 1 of Inl e \<Rightarrow> Inl e | Inr a1 \<Rightarrow> Inr (a0 @ '', and '' @ a1)))
      else (case py_get auths 0 of Inl e \<Rightarrow> Inl e | Inr a0 \<Rightarrow> Inr (a0 @ '', et al.'')))"

definition format_mla ::
  "string list \<Rightarrow> pyval \<Rightarrow> string \<Rightarrow> string \<Rightarrow> string \<Rightarrow> string \<Rightarrow> string \<Rightarrow> string
     \<Rightarrow> error + string" where
  "format_mla auths yr ttl jrnl vol iss pgs doi =
     (case mla_author_str auths of Inl e \<Rightarrow> Inl e | Inr author_str \<Rightarrow>
        Inr (author_str @ ''. '' @ dq @ ttl @ ''.'' @ dq
          @ (if jrnl \<noteq> [] then
               '' '' @ jrnl
               @ (if vol \<noteq> [] then '', vol. '' @ vol else [])
               @ (if iss \<noteq> [] then '', no. '' @ iss else [])
               @ '', '' @ py_str yr
               @ (if pgs \<noteq> [] then '', pp. '' @ pgs else [])
             else [])
          @ ''.''))"

definition format_chicago ::
  "string list \<Rightarrow> pyval \<Rightarrow> string \<Rightarrow> string \<Rightarrow> string \<Rightarrow> string \<Rightarrow> string \<Rightarrow> string
     \<Rightarrow> error + string" where
  "format_chicago auths yr ttl jrnl vol iss pgs doi =
     (let author_str = join '', '' auths in
        Inr (author_str @ ''. '' @ dq @ ttl @ ''.'' @ dq
          @ (if jrnl \<noteq> [] then
               '' '' @ jrnl @ '' '' @ vol
               @ (if iss \<noteq> [] then '', no. '' @ iss else [])
               @ '' ('' @ py_str yr @ '')''
               @ (if pgs \<noteq> [] then '': '' @ pgs else [])
             else [])
          @ (if doi \<noteq> [] then ''. https://doi.org/'' @ doi else [])
          @ ''.''))"

fun seq_err :: "(error + 'a) list \<Rightarrow> error + 'a list" where
  \<comment> \<open>a loop that appends each result and stops at the first exception\<close>
  "seq_err [] = Inr []"
| "seq_err (r # rs) =
     (case r of Inl e \<Rightarrow> Inl e | Inr x \<Rightarrow>
        (case seq_err rs of Inl e \<Rightarrow> Inl e | Inr xs \<Rightarrow> Inr (x # xs)))"

definition ieee_initials :: "string list \<Rightarrow> error + string" where
  \<comment> \<open>\<^verbatim>\<open>". ".join([p[0] for p in parts[:-1]]) + "."\<close>\<close>
  "ieee_initials parts =
     (case seq_err (map (\<lambda>p. py_get p 0) (butlast parts)) of Inl e \<Rightarrow> Inl e
      | Inr cs \<Rightarrow> Inr (join ''. '' (map (\<lambda>c. [c]) cs) @ ''.''))"

definition ieee_name :: "string \<Rightarrow> error + string" where
  \<comment> \<open>the body of the loop over \<^verbatim>\<open>authors\<close>: what is appended for one author\<close>
  "ieee_name author =
     (let parts = split author in
        if length parts \<ge> 2 then
          (case ieee_initials parts of Inl e \<Rightarrow> Inl e
           | Inr initials \<Rightarrow> Inr (initials @ '' '' @ last parts))
        else Inr author)"

definition ieee_author_str :: "string list \<Rightarrow> error + string" where
  "ieee_author_str auths =
     (case seq_err (map ieee_name auths) of Inl e \<Rightarrow> Inl e
      | Inr formatted_authors \<Rightarrow>
          if length formatted_authors > 3 then
            (case py_get formatted_authors 0 of Inl e \<Rightarrow> Inl e | Inr a0 \<Rightarrow> Inr (a0 @ '' et al.''))
          else Inr (join '', '' formatted_authors))"

definition format_ieee ::
  "string list \<Rightarrow> pyval \<Rightarrow> string \<Rightarrow> string \<Rightarrow> string \<Rightarrow> string \<Rightarrow> string \<Rightarrow> string
     \<Rightarrow> error + string" where
  "format_ieee auths yr ttl jrnl vol iss pgs doi =
     (case ieee_author_str auths of Inl e \<Rightarrow> Inl e | Inr author_str \<Rightarrow>
        Inr (author_str @ '', '' @ dq @ ttl @ '','' @ dq
          @ (if jrnl \<noteq> [] then
               '' '' @ jrnl
               @ (if vol \<noteq> [] then '', vol. '' @ vol else [])
               @ (if iss \<noteq> [] then '', no. '' @ iss else [])
               @ (if pgs \<noteq> [] then '', pp. '' @ pgs else [])
               @ '', '' @ py_str yr
             else [])
          @ ''.''))"

definition harvard_author_str :: "string list \<Rightarrow> error + string" where
  "harvard_author_str auths =
     (if length auths = 1 then py_get auths 0
      else if length auths = 2 then
        (case py_get auths 0 of Inl e \<Rightarrow> Inl e | Inr a0 \<Rightarrow>
          (case py_get auths 1 of Inl e \<Rightarrow> Inl e | Inr a1 \<Rightarrow> Inr (a0 @ '' and '' @ a1)))
      else (case py_get auths 0 of Inl e \<Rightarrow> Inl e | Inr a0 \<Rightarrow> Inr (a0 @ '' et al.'')))"

definition format_harvard ::
  "string list \<Rightarrow> pyval \<Rightarrow> string \<Rightarrow> string \<Rightarrow> string \<Rightarrow> string \<Rightarrow> string \<Rightarrow> string
     \<Rightarrow> error + string" where
  "format_harvard auths yr ttl jrnl vol iss pgs doi =
     (case harvard_author_str auths of Inl e \<Rightarrow> Inl e | Inr author_str \<Rightarrow>
        Inr (author_str @ '' '' @ py_str yr @ '', '' @ [CHR 0x27] @ ttl @ [CHR 0x27]
          @ (if jrnl \<noteq> [] then
               '', '' @ jrnl
               @ (if vol \<noteq> [] then '', vol. '' @ vol else [])
               @ (if iss \<noteq> [] then '', no. '' @ iss else [])
               @ (if pgs \<noteq> [] then '', pp. '' @ pgs else [])
             else [])
          @ ''.''))"

type_synonym formatter =
  "string list \<Rightarrow> pyval \<Rightarrow> string \<Rightarrow> string \<Rightarrow> string \<Rightarrow> string \<Rightarrow> string \<Rightarrow> string
     \<Rightarrow> error + string"

definition formatters :: "(string \<times> formatter) list" where
  "formatters =
     [(''APA 7th'', format_apa), (''MLA 9th'', format_mla), (''Chicago 17th'', format_chicago),
      (''IEEE'', format_ieee), (''Harvard'', format_harvard)]"

definition format_citation ::
  "string list \<Rightarrow> pyval \<Rightarrow> string \<Rightarrow> string \<Rightarrow> string \<Rightarrow> string \<Rightarrow> string \<Rightarrow> string
     \<Rightarrow> string \<Rightarrow> error + string" where
  "format_citation auths yr ttl jrnl vol iss pgs doi style =
     (let formatter = (case map_of formatters style of None \<Rightarrow> format_apa | Some f \<Rightarrow> f)
      in formatter auths yr ttl jrnl vol iss pgs doi)"

definition CITATION_STYLES :: "string list" where
  \<comment> \<open>\<^verbatim>\<open>Config.CITATION_STYLES\<close> of \<^verbatim>\<open>config/settings.py\<close>\<close>
  "CITATION_STYLES = [''APA 7th'', ''MLA 9th'', ''Chicago 17th'', ''IEEE'', ''Harvard'']"

section \<open>The bibliography\<close>

text \<open>
  A citation is a Python dictionary; a key that is absent is \<open>None\<close> here.
\<close>

record citation =
  c_authors :: "string list option"
  c_year :: "pyval option"
  c_title :: "string option"
  c_journal :: "string option"
  c_volume :: "string option"
  c_issue :: "string option"
  c_pages :: "string option"
  c_doi :: "string option"

definition dict_get :: "'a option \<Rightarrow> 'a \<Rightarrow> 'a" where
  \<comment> \<open>\<^verbatim>\<open>d.get(key, default)\<close>\<close>
  "dict_get v dflt = (case v of None \<Rightarrow> dflt | Some x \<Rightarrow> x)"

definition format_record :: "citation \<Rightarrow> string \<Rightarrow> error + string" where
  \<comment> \<open>the call of \<^verbatim>\<open>format_citation\<close> in the loop of \<^verbatim>\<open>generate_bibliography\<close>\<close>
  "format_record c style =
     format_citation (dict_get (c_authors c) []) (dict_get (c_year c) (PyStr []))
       (dict_get (c_title c) []) (dict_get (c_journal c) []) (dict_get (c_volume c) [])
       (dict_get (c_issue c) []) (dict_get (c_pages c) []) (dict_get (c_doi c) []) style"

fun format_each :: "citation list \<Rightarrow> string \<Rightarrow> error + string list" where
  "format_each [] style = Inr []"
| "format_each (c # cs) style =
     (case format_record c style of Inl e \<Rightarrow> Inl e
      | Inr formatted \<Rightarrow>
          (case format_each cs style of Inl e \<Rightarrow> Inl e
           | Inr bibliography \<Rightarrow> Inr (formatted # bibliography)))"

definition generate_bibliography :: "citation list \<Rightarrow> string \<Rightarrow> error + string" where
  "generate_bibliography citations style =
     (case format_each citations style of Inl e \<Rightarrow> Inl e
      | Inr bibliography \<Rightarrow> Inr (join [CHR 0x0A, CHR 0x0A] (sort bibliography)))"

section \<open>The validators\<close>

fun digits_ok :: "string \<Rightarrow> bool" where
  \<comment> \<open>decimal digits, with single underscores allowed between two digits\<close>
  "digits_ok [] = False"
| "digits_ok [c] = is_digit c"
| "digits_ok (c # d # r) =
     (is_digit c \<and> (if d = CHR ''_'' then digits_ok r else digits_ok (d # r)))"

definition digit_val :: "char \<Rightarrow> nat" where
  "digit_val c = length (takeWhile (\<lambda>d. d \<noteq> c) ''0123456789'')"

definition nat_of_digits :: "string \<Rightarrow> nat" where
  "nat_of_digits ds = foldl (\<lambda>acc c. 10 * acc + digit_val c) 0 ds"

definition max_str_digits :: nat where
  \<comment> \<open>the interpreter's default limit on the digits of an integer string\<close>
  "max_str_digits = 4300"

definition is_int_space :: "char \<Rightarrow> bool" where
  \<comment> \<open>the whitespace that \<^verbatim>\<open>int(s)\<close> skips around the number: unlike \<^verbatim>\<open>str.isspace\<close>,
      not the separators 0x1C to 0x1F\<close>
  "is_int_space c \<longleftrightarrow> c \<in> set [CHR 0x09, CHR 0x0A, CHR 0x0B, CHR 0x0C, CHR 0x0D,
     CHR 0x20, CHR 0x85, CHR 0xA0]"

definition int_strip :: "string \<Rightarrow> string" where
  "int_strip s = rev (dropWhile is_int_space (rev (dropWhile is_int_space s)))"

definition int_of_str :: "string \<Rightarrow> error + int" where
  \<comment> \<open>\<^verbatim>\<open>int(s)\<close> of a \<^verbatim>\<open>str\<close>: surrounding whitespace, an optional sign, the digits\<close>
  "int_of_str s =
     (let t = int_strip s;
          neg = (case t of [] \<Rightarrow> False | c # _ \<Rightarrow> c = CHR ''-'');
          body = (case t of [] \<Rightarrow> [] | c # r \<Rightarrow> if c = CHR ''-'' \<or> c = CHR ''+'' then r else t);
          ds = filter is_digit body
      in if digits_ok body \<and> length ds \<le> max_str_digits
         then Inr (if neg then - int (nat_of_digits ds) else int (nat_of_digits ds))
         else Inl ValueError)"

fun py_int :: "pyval \<Rightarrow> error + int" where
  \<comment> \<open>\<^verbatim>\<open>int(v)\<close>\<close>
  "py_int (PyInt i) = Inr i"
| "py_int (PyStr s) = int_of_str s"

definition validate_year :: "pyval \<Rightarrow> bool" where
  \<comment> \<open>\<^verbatim>\<open>Validators.validate_year\<close>\<close>
  "validate_year yr =
     (case py_int yr of Inl e \<Rightarrow> False
      | Inr year_int \<Rightarrow> 1900 \<le> year_int \<and> year_int \<le> 2030)"

definition validate_citation :: "int \<Rightarrow> citation \<Rightarrow> bool" where
  \<comment> \<open>\<^verbatim>\<open>CitationManager.validate_citation\<close>; \<open>now_year\<close> is \<^verbatim>\<open>datetime.now().year\<close>\<close>
  "validate_citation now_year c =
     (case c_authors c of None \<Rightarrow> False
      | Some a \<Rightarrow>
          if a = [] then False
          else (case c_year c of None \<Rightarrow> False
            | Some y \<Rightarrow>
                if \<not> py_truthy y then False
                else (case c_title c of None \<Rightarrow> False
                  | Some t \<Rightarrow>
                      if t = [] then False
                      else (case py_int y of Inl e \<Rightarrow> False
                        | Inr yr \<Rightarrow>
                            if yr < 1500 \<or> yr > now_year + 1 then False else True))))"

section \<open>The extractor\<close>

text \<open>
  The two patterns use literal characters, character classes, the greedy quantifiers
  \<^verbatim>\<open>+\<close>, \<^verbatim>\<open>*\<close> and \<^verbatim>\<open>{n}\<close> on a class, \<^verbatim>\<open>?\<close>, concatenation and capture groups.
  \<open>rmatch r s\<close> lists every way in which \<open>r\<close> matches a prefix of \<open>s\<close>, as the captured
  groups and the rest of \<open>s\<close>, in the order in which a backtracking matcher tries them
  (a greedy quantifier tries the longest run first, \<^verbatim>\<open>?\<close> tries to match before it
  skips); the match that \<^verbatim>\<open>re\<close> reports is the first of the list.
\<close>

datatype regex =
    Chr char
  | Set "char \<Rightarrow> bool"
  | Plus "char \<Rightarrow> bool"
  | Star "char \<Rightarrow> bool"
  | Rep nat "char \<Rightarrow> bool"
  | Opt regex
  | Seq "regex list"
  | Grp regex

fun rmatch :: "regex \<Rightarrow> string \<Rightarrow> (string list \<times> string) list" where
  "rmatch (Chr c) s = (case s of [] \<Rightarrow> [] | x # xs \<Rightarrow> if x = c then [([], xs)] else [])"
| "rmatch (Set P) s = (case s of [] \<Rightarrow> [] | x # xs \<Rightarrow> if P x then [([], xs)] else [])"
| "rmatch (Plus P) s = map (\<lambda>k. ([], drop k s)) (rev [1..<Suc (length (takeWhile P s))])"
| "rmatch (Star P) s = map (\<lambda>k. ([], drop k s)) (rev [0..<Suc (length (takeWhile P s))])"
| "rmatch (Rep n P) s = (if n \<le> length (takeWhile P s) then [([], drop n s)] else [])"
| "rmatch (Opt r) s = rmatch r s @ [([], s)]"
| "rmatch (Seq []) s = [([], s)]"
| "rmatch (Seq (r # rs)) s =
     concat (map (\<lambda>(g1, s1). map (\<lambda>(g2, s2). (g1 @ g2, s2)) (rmatch (Seq rs) s1)) (rmatch r s))"
| "rmatch (Grp r) s = map (\<lambda>(g, s'). (take (length s - length s') s # g, s')) (rmatch r s)"

text \<open>
  \<^verbatim>\<open>re.findall\<close> tries the pattern at each position from left to right and, after a
  match, goes on where the match ends. A match of no character at all would go on one
  character further; neither pattern has such a match, since both open on a literal
  (lemma \<open>patterns_progress\<close>).
\<close>

function findall_at :: "regex \<Rightarrow> nat \<Rightarrow> string \<Rightarrow> (nat \<times> string list) list" where
  \<comment> \<open>the scan of \<^verbatim>\<open>re.findall\<close> from offset \<open>off\<close>, each match with the offset of its start\<close>
  "findall_at r off s =
     (case rmatch r s of
        [] \<Rightarrow> (case s of [] \<Rightarrow> [] | x # xs \<Rightarrow> findall_at r (Suc off) xs)
      | (g, rest) # alternatives \<Rightarrow>
          if length rest < length s
          then (off, g) # findall_at r (off + (length s - length rest)) rest
          else (off, g) # (case s of [] \<Rightarrow> [] | x # xs \<Rightarrow> findall_at r (Suc off) xs))"
  by pat_completeness auto
termination
  by (relation "measure (\<lambda>(r, off, s). length s)") auto

declare findall_at.simps [simp del]

definition findall :: "regex \<Rightarrow> string \<Rightarrow> string list list" where
  \<comment> \<open>\<^verbatim>\<open>re.findall\<close>: the groups of the matches, leftmost first, without overlap\<close>
  "findall r s = map snd (findall_at r 0 s)"

definition is_author_char :: "char \<Rightarrow> bool" where
  \<comment> \<open>the class \<^verbatim>\<open>[a-zA-Z\s&,]\<close>\<close>
  "is_author_char c \<longleftrightarrow> is_lower c \<or> is_upper c \<or> is_space c \<or> c = CHR ''&'' \<or> c = CHR '',''"

definition pattern1 :: regex where
  \<comment> \<open>\<^verbatim>\<open>\(([A-Z][a-zA-Z\s&,]+),?\s*(\d{4})\)\<close>\<close>
  "pattern1 = Seq [Chr CHR ''('', Grp (Seq [Set is_upper, Plus is_author_char]),
     Opt (Chr CHR '',''), Star is_space, Grp (Rep 4 is_digit), Chr CHR '')'']"

definition pattern2 :: regex where
  \<comment> \<open>\<^verbatim>\<open>\[(\d+)\]\<close>\<close>
  "pattern2 = Seq [Chr CHR ''['', Grp (Plus is_digit), Chr CHR '']'']"

text \<open>
  A mention is the dictionary that \<^verbatim>\<open>extract_citations\<close> appends: its \<^verbatim>\<open>type\<close> is the
  constructor, \<open>InText authors year\<close> or \<open>Numbered number\<close>. The number is the matched text.
\<close>

datatype mention = InText string string | Numbered string

definition in_text_of :: "string list \<Rightarrow> mention" where
  "in_text_of match = InText (strip (match ! 0)) (match ! 1)"

definition numbered_of :: "string list \<Rightarrow> mention" where
  "numbered_of match = Numbered (match ! 0)"

definition extract_citations :: "string \<Rightarrow> mention list" where
  "extract_citations text =
     (let matches1 = findall pattern1 text;
          matches2 = findall pattern2 text
      in map in_text_of matches1 @ map numbered_of matches2)"

section \<open>Concrete inputs and auxiliary notions\<close>

definition rec_of :: "string list \<Rightarrow> pyval \<Rightarrow> string \<Rightarrow> citation" where
  \<comment> \<open>the dictionary with the three required keys and no other\<close>
  "rec_of a y t = \<lparr>c_authors = Some a, c_year = Some y, c_title = Some t, c_journal = None,
     c_volume = None, c_issue = None, c_pages = None, c_doi = None\<rparr>"

definition spec_example_text :: string where
  "spec_example_text =
     ''According to Smith (2023), models improve accuracy. See also [4] for a survey.''"

definition test_extract_text :: string where
  \<comment> \<open>the text of \<^verbatim>\<open>test_extract_citations\<close> in \<^verbatim>\<open>tests/test_integration.py\<close>\<close>
  "test_extract_text =
     ''According to Smith (2023), this is important. Jones et al. (2022) disagree.''"

fun consumes :: "regex \<Rightarrow> char \<Rightarrow> bool" where
  \<comment> \<open>the characters that a match of the expression can contain\<close>
  "consumes (Chr c) x = (x = c)"
| "consumes (Set P) x = P x"
| "consumes (Plus P) x = P x"
| "consumes (Star P) x = P x"
| "consumes (Rep n P) x = P x"
| "consumes (Opt r) x = consumes r x"
| "consumes (Seq []) x = False"
| "consumes (Seq (r # rs)) x = (consumes r x \<or> consumes (Seq rs) x)"
| "consumes (Grp r) x = consumes r x"

fun is_numbered :: "mention \<Rightarrow> bool" where
  "is_numbered (Numbered n) = True"
| "is_numbered (InText a y) = False"

fun min_groups :: "regex \<Rightarrow> nat" where
  \<comment> \<open>the number of groups that every match of the expression captures\<close>
  "min_groups (Chr c) = 0"
| "min_groups (Set P) = 0"
| "min_groups (Plus P) = 0"
| "min_groups (Star P) = 0"
| "min_groups (Rep n P) = 0"
| "min_groups (Opt r) = 0"
| "min_groups (Seq []) = 0"
| "min_groups (Seq (r # rs)) = min_groups r + min_groups (Seq rs)"
| "min_groups (Grp r) = Suc (min_groups r)"

section \<open>Properties of the formatter\<close>

lemma formatters_keys: "map fst formatters = CITATION_STYLES"
  by (simp add: formatters_def CITATION_STYLES_def)

lemma apa_author_str_ok: "(\<exists>c. apa_author_str auths = Inr c) \<longleftrightarrow> auths \<noteq> []"
  by (cases auths) (auto simp: apa_author_str_def py_get_def)

lemma format_apa_ok:
  "(\<exists>c. format_apa auths yr ttl jrnl vol iss pgs doi = Inr c) \<longleftrightarrow> auths \<noteq> []"
  using apa_author_str_ok [of auths]
  by (auto simp: format_apa_def split: sum.splits)

lemma format_citation_fallback:
  "style \<notin> set CITATION_STYLES \<Longrightarrow>
     format_citation auths yr ttl jrnl vol iss pgs doi style
       = format_apa auths yr ttl jrnl vol iss pgs doi"
  by (simp add: format_citation_def formatters_def CITATION_STYLES_def)

lemma format_citation_apa:
  "format_citation auths yr ttl jrnl vol iss pgs doi ''APA 7th''
     = format_apa auths yr ttl jrnl vol iss pgs doi"
  by (simp add: format_citation_def formatters_def)

lemma empty_authors_chicago_ieee:
  "\<exists>rest. format_chicago [] yr ttl jrnl vol iss pgs doi = Inr ([] @ rest)"
  "ieee_author_str [] = Inr []"
  by (simp_all add: format_chicago_def ieee_author_str_def)

text \<open>
  C1. The specification: with an empty authors list every style returns a string whose
  authors clause is empty. The code does so for Chicago and IEEE only. In the APA, MLA and Harvard
  branches a list of length 0 is neither of length 1 nor of length 2, so the last branch
  reads \<^verbatim>\<open>authors[0]\<close> and raises \<^verbatim>\<open>IndexError\<close>, whatever the other fields are.
\<close>

theorem format_citation_empty_authors_raises:
  "format_citation [] (PyInt 2023) ''T'' [] [] [] [] [] ''APA 7th'' = Inl IndexError
   \<and> format_citation [] yr ttl jrnl vol iss pgs doi ''APA 7th'' = Inl IndexError
   \<and> format_citation [] yr ttl jrnl vol iss pgs doi ''MLA 9th'' = Inl IndexError
   \<and> format_citation [] yr ttl jrnl vol iss pgs doi ''Harvard'' = Inl IndexError"
  by (simp add: format_citation_def formatters_def format_apa_def apa_author_str_def py_get_def
      format_mla_def mla_author_str_def format_harvard_def harvard_author_str_def)

text \<open>
  C5. A style that is not one of the five supported tags is formatted as \<^verbatim>\<open>APA 7th\<close>:
  the result is the same value, and it is a string exactly when the authors list is
  not empty, so the unknown tag itself never makes the call fail.
\<close>

theorem format_citation_unknown_style:
  "style \<notin> set CITATION_STYLES \<Longrightarrow>
     format_citation auths yr ttl jrnl vol iss pgs doi style
       = format_citation auths yr ttl jrnl vol iss pgs doi ''APA 7th''
     \<and> ((\<exists>c. format_citation auths yr ttl jrnl vol iss pgs doi style = Inr c) \<longleftrightarrow> auths \<noteq> [])"
  by (simp add: format_citation_fallback format_citation_apa format_apa_ok)

theorem format_citation_unknown_style_witness:
  "''Vancouver'' \<notin> set CITATION_STYLES \<and>
   format_citation [''Smith, J.''] (PyInt 2023) ''Title'' ''Journal'' ''1'' ''2'' ''3-4'' []
     ''Vancouver'' = Inr ''Smith, J. (2023). Title. Journal, 1(2), 3-4''"
proof -
  have h: "''Vancouver'' \<notin> set CITATION_STYLES"
    by (simp add: CITATION_STYLES_def)
  have e: "format_citation [''Smith, J.''] (PyInt 2023) ''Title'' ''Journal'' ''1'' ''2'' ''3-4'' []
     ''APA 7th'' = Inr ''Smith, J. (2023). Title. Journal, 1(2), 3-4''"
    by (simp add: format_citation_def formatters_def format_apa_def apa_author_str_def py_get_def
        str_int_def str_nat.simps digit_char_def)
  from format_citation_unknown_style [OF h, of "[''Smith, J.'']" "PyInt 2023" "''Title''"
      "''Journal''" "''1''" "''2''" "''3-4''" "[]"] e h
  show ?thesis by simp
qed

text \<open>
  C7. In the APA style the authors clause is the name itself for one author, \<open>A & B\<close> for
  two, and the first name followed by \<open> et al.\<close> for three or more; the three authors of
  the example give \<open>Smith, J. et al.\<close>. The clause is the beginning of the formatted
  citation, followed by the year in parentheses and the title.
\<close>

theorem apa_author_clause:
  "apa_author_str [a] = Inr a
   \<and> apa_author_str [a, b] = Inr (a @ '' & '' @ b)
   \<and> (3 \<le> length auths \<longrightarrow> apa_author_str auths = Inr (hd auths @ '' et al.''))
   \<and> apa_author_str [''Smith, J.'', ''Jones, K.'', ''Lee, R.''] = Inr ''Smith, J. et al.''
   \<and> (\<forall>c. apa_author_str auths = Inr c \<longrightarrow>
        (\<exists>rest. format_apa auths yr ttl jrnl vol iss pgs doi
           = Inr (c @ '' ('' @ py_str yr @ ''). '' @ ttl @ ''.'' @ rest)))"
  by (cases auths) (auto simp: apa_author_str_def py_get_def format_apa_def)

theorem apa_author_clause_witness:
  "3 \<le> length [''A'', ''B'', ''C'', ''D''] \<and> apa_author_str [''A'', ''B'', ''C'', ''D''] = Inr ''A et al.''
   \<and> (\<exists>rest. format_apa [''A'', ''B'', ''C'', ''D''] (PyStr ''2020'') ''T'' [] [] [] [] []
        = Inr (''A et al. (2020). T.'' @ rest))"
proof -
  note t = apa_author_clause [of "''A''" "''B''" "[''A'', ''B'', ''C'', ''D'']" "PyStr ''2020''"
      "''T''" "[]" "[]" "[]" "[]" "[]"]
  from t have a: "apa_author_str [''A'', ''B'', ''C'', ''D''] = Inr ''A et al.''"
    by simp
  from t a have "\<exists>rest. format_apa [''A'', ''B'', ''C'', ''D''] (PyStr ''2020'') ''T'' [] [] [] [] []
      = Inr (''A et al.'' @ '' ('' @ py_str (PyStr ''2020'') @ ''). '' @ ''T'' @ ''.'' @ rest)"
    by blast
  with a show ?thesis by simp
qed

text \<open>
  C9. With an empty journal the MLA citation is the authors clause, a period and a space,
  the title with a period in double quotes, and a final period: year, volume, issue, pages
  and DOI do not occur in it. The authors clause exists when the authors list is not empty.
\<close>

theorem format_mla_no_journal:
  "format_mla auths yr ttl [] vol iss pgs doi =
     (case mla_author_str auths of Inl e \<Rightarrow> Inl e
      | Inr author_str \<Rightarrow> Inr (author_str @ ''. '' @ dq @ ttl @ ''.'' @ dq @ ''.''))
   \<and> (auths \<noteq> [] \<longrightarrow> (\<exists>c. mla_author_str auths = Inr c))"
  by (cases auths) (auto simp: format_mla_def mla_author_str_def py_get_def split: sum.splits)

theorem format_mla_no_journal_witness:
  "[''Smith, J.'', ''Lee, R.''] \<noteq> [] \<and>
   format_mla [''Smith, J.'', ''Lee, R.''] (PyInt 2023) ''Title'' [] ''7'' ''2'' ''1-9'' ''10.1/x''
     = Inr (''Smith, J., and Lee, R.. '' @ dq @ ''Title.'' @ dq @ ''.'')"
  using format_mla_no_journal [of "[''Smith, J.'', ''Lee, R.'']" "PyInt 2023" "''Title''" "''7''"
      "''2''" "''1-9''" "''10.1/x''"]
  by (simp add: mla_author_str_def py_get_def)

text \<open>
  The tokens of \<^verbatim>\<open>author.split()\<close> are never empty, so \<^verbatim>\<open>p[0]\<close> never raises.
\<close>

lemma split_acc_nonempty: "p \<in> set (split_acc cur s) \<Longrightarrow> p \<noteq> []"
  by (induction s arbitrary: cur) (auto split: if_splits)

lemma split_nonempty: "p \<in> set (split s) \<Longrightarrow> p \<noteq> []"
  unfolding split_def by (rule split_acc_nonempty)

lemma seq_err_first_chars:
  "\<forall>p\<in>set ps. p \<noteq> [] \<Longrightarrow> seq_err (map (\<lambda>p. py_get p 0) ps) = Inr (map hd ps)"
  by (induction ps) (auto simp: py_get_def hd_conv_nth)

lemma first_letters:
  "\<forall>p\<in>set ps. p \<noteq> [] \<Longrightarrow> map (\<lambda>c. [c]) (map hd ps) = map (take 1) ps"
  by (induction ps) (auto simp: neq_Nil_conv)

lemma ieee_initials_eq:
  assumes "\<forall>p\<in>set parts. p \<noteq> []"
  shows "ieee_initials parts = Inr (join ''. '' (map (take 1) (butlast parts)) @ ''.'')"
proof -
  have ne: "\<forall>p\<in>set (butlast parts). p \<noteq> []"
    using assms by (auto dest: in_set_butlastD)
  have "ieee_initials parts = Inr (join ''. '' (map (\<lambda>c. [c]) (map hd (butlast parts))) @ ''.'')"
    unfolding ieee_initials_def seq_err_first_chars [OF ne] by simp
  then show ?thesis
    unfolding first_letters [OF ne] .
qed

lemma join_initials:
  "xs \<noteq> [] \<Longrightarrow> join ''. '' xs @ ''. '' = concat (map (\<lambda>x. x @ ''. '') xs)"
  by (induction "''. ''" xs rule: join.induct) auto

lemma seq_err_total:
  "\<forall>x\<in>set xs. \<exists>y. f x = Inr y \<Longrightarrow>
     \<exists>ys. seq_err (map f xs) = Inr ys \<and> length ys = length xs
       \<and> (\<forall>i<length xs. f (xs ! i) = Inr (ys ! i))"
proof (induction xs)
  case Nil
  then show ?case by simp
next
  case (Cons x xs)
  then obtain y where y: "f x = Inr y" by auto
  from Cons obtain ys where ys: "seq_err (map f xs) = Inr ys" "length ys = length xs"
    "\<forall>i<length xs. f (xs ! i) = Inr (ys ! i)" by auto
  have "\<forall>i<length (x # xs). f ((x # xs) ! i) = Inr ((y # ys) ! i)"
    using y ys(3) by (auto simp: nth_Cons split: nat.splits)
  with y ys show ?case by auto
qed

lemma ieee_name_two:
  assumes "2 \<le> length (split author)"
  shows "ieee_name author
    = Inr (join ''. '' (map (take 1) (butlast (split author))) @ ''.'' @ '' ''
        @ last (split author))"
proof -
  have "\<forall>p\<in>set (split author). p \<noteq> []" by (auto dest: split_nonempty)
  from ieee_initials_eq [OF this] assms show ?thesis
    by (simp add: ieee_name_def Let_def)
qed

lemma ieee_name_total: "\<exists>n. ieee_name author = Inr n"
proof (cases "2 \<le> length (split author)")
  case True
  from ieee_name_two [OF this] show ?thesis by blast
next
  case False
  then show ?thesis by (simp add: ieee_name_def Let_def)
qed

text \<open>
  C8. In the IEEE style a name of two or more whitespace-separated tokens becomes the
  first letters of all tokens but the last, joined by \<open>. \<close> and closed by a period, then a
  space and the last token unchanged; said otherwise, each token but the last is replaced
  by its first letter, a period and a space. Every name has a transformed name (the loop
  never raises), and the authors clause is the first transformed name followed by
  \<open> et al.\<close> when there are more than three authors, and all transformed names joined
  by \<open>, \<close> otherwise. The IEEE citation, which is what \<^verbatim>\<open>format_citation\<close> returns for
  the style \<^verbatim>\<open>IEEE\<close>, is a string that begins with this clause, followed by a comma
  and the title with a comma in double quotes.
\<close>

theorem ieee_author_clause:
  "(2 \<le> length (split author) \<longrightarrow>
      ieee_name author
        = Inr (join ''. '' (map (take 1) (butlast (split author))) @ ''.'' @ '' ''
            @ last (split author))
    \<and> ieee_name author
        = Inr (concat (map (\<lambda>p. take 1 p @ ''. '') (butlast (split author)))
            @ last (split author)))
   \<and> (\<exists>names. length names = length auths
        \<and> (\<forall>i<length auths. ieee_name (auths ! i) = Inr (names ! i))
        \<and> ieee_author_str auths
            = Inr (if 3 < length auths then names ! 0 @ '' et al.'' else join '', '' names)
        \<and> (\<exists>rest. format_ieee auths yr ttl jrnl vol iss pgs doi
              = Inr ((if 3 < length auths then names ! 0 @ '' et al.'' else join '', '' names)
                  @ '', '' @ dq @ ttl @ '','' @ dq @ rest)))
   \<and> format_citation auths yr ttl jrnl vol iss pgs doi ''IEEE''
       = format_ieee auths yr ttl jrnl vol iss pgs doi"
proof -
  have a: "ieee_name author
        = Inr (concat (map (\<lambda>p. take 1 p @ ''. '') (butlast (split author)))
            @ last (split author))"
    if h: "2 \<le> length (split author)"
  proof -
    from h have "butlast (split author) \<noteq> []"
      by (cases "split author" rule: rev_cases) auto
    then have "map (take 1) (butlast (split author)) \<noteq> []" by simp
    from join_initials [OF this]
    have "join ''. '' (map (take 1) (butlast (split author))) @ ''. ''
       = concat (map (\<lambda>p. take 1 p @ ''. '') (butlast (split author)))"
      by (simp add: comp_def)
    with ieee_name_two [OF h] show ?thesis by simp
  qed
  have "\<forall>x\<in>set auths. \<exists>y. ieee_name x = Inr y" using ieee_name_total by blast
  from seq_err_total [OF this] obtain names where n:
    "seq_err (map ieee_name auths) = Inr names" "length names = length auths"
    "\<forall>i<length auths. ieee_name (auths ! i) = Inr (names ! i)" by blast
  let ?clause = "if 3 < length auths then names ! 0 @ '' et al.'' else join '', '' names"
  have c: "ieee_author_str auths = Inr ?clause"
    using n(1,2) by (simp add: ieee_author_str_def py_get_def)
  have "format_ieee auths yr ttl jrnl vol iss pgs doi
      = Inr (?clause @ '', '' @ dq @ ttl @ '','' @ dq
          @ ((if jrnl \<noteq> [] then
               '' '' @ jrnl
               @ (if vol \<noteq> [] then '', vol. '' @ vol else [])
               @ (if iss \<noteq> [] then '', no. '' @ iss else [])
               @ (if pgs \<noteq> [] then '', pp. '' @ pgs else [])
               @ '', '' @ py_str yr
             else [])
          @ ''.''))"
    unfolding format_ieee_def c by simp
  then have f: "\<exists>rest. format_ieee auths yr ttl jrnl vol iss pgs doi
      = Inr (?clause @ '', '' @ dq @ ttl @ '','' @ dq @ rest)"
    by blast
  have d: "format_citation auths yr ttl jrnl vol iss pgs doi ''IEEE''
       = format_ieee auths yr ttl jrnl vol iss pgs doi"
    by (simp add: format_citation_def formatters_def)
  from n(2,3) c f have "\<exists>names. length names = length auths
        \<and> (\<forall>i<length auths. ieee_name (auths ! i) = Inr (names ! i))
        \<and> ieee_author_str auths
            = Inr (if 3 < length auths then names ! 0 @ '' et al.'' else join '', '' names)
        \<and> (\<exists>rest. format_ieee auths yr ttl jrnl vol iss pgs doi
              = Inr ((if 3 < length auths then names ! 0 @ '' et al.'' else join '', '' names)
                  @ '', '' @ dq @ ttl @ '','' @ dq @ rest))"
    by blast
  with a ieee_name_two d show ?thesis by blast
qed

theorem ieee_author_clause_witness:
  "2 \<le> length (split ''John Ronald Smith'')
   \<and> ieee_name ''John Ronald Smith'' = Inr ''J. R. Smith''
   \<and> 3 < length [''John Ronald Smith'', ''Ann Lee'', ''Plato'', ''Bo Li'']
   \<and> ieee_author_str [''John Ronald Smith'', ''Ann Lee'', ''Plato'', ''Bo Li'']
       = Inr ''J. R. Smith et al.''
   \<and> format_citation [''John Ronald Smith'', ''Ann Lee'', ''Plato'', ''Bo Li''] (PyStr ''2020'')
        ''Title'' ''Journal'' ''7'' [] ''1-9'' [] ''IEEE''
       = Inr (''J. R. Smith et al., '' @ dq @ ''Title,'' @ dq @ '' Journal, vol. 7, pp. 1-9, 2020.'')"
proof -
  let ?a = "''John Ronald Smith''"
  let ?as = "[''John Ronald Smith'', ''Ann Lee'', ''Plato'', ''Bo Li'']"
  note t = ieee_author_clause [of ?a ?as "PyStr ''2020''" "''Title''" "''Journal''" "''7''" "[]"
      "''1-9''" "[]"]
  have s: "split ?a = [''John'', ''Ronald'', ''Smith'']"
    by (simp add: split_def is_space_def)
  from t have "2 \<le> length (split ?a) \<longrightarrow>
      ieee_name ?a
        = Inr (join ''. '' (map (take 1) (butlast (split ?a))) @ ''.'' @ '' '' @ last (split ?a))"
    by blast
  with s have n: "ieee_name ?a = Inr ''J. R. Smith''" by simp
  from t obtain names where names:
    "\<forall>i<length ?as. ieee_name (?as ! i) = Inr (names ! i)"
    "ieee_author_str ?as
       = Inr (if 3 < length ?as then names ! 0 @ '' et al.'' else join '', '' names)"
    by blast
  have "(0::nat) < length ?as" by simp
  with names(1) have "ieee_name (?as ! 0) = Inr (names ! 0)" by blast
  with n have "names ! 0 = ''J. R. Smith''" by simp
  with names(2) have c: "ieee_author_str ?as = Inr ''J. R. Smith et al.''" by simp
  from t have "format_citation ?as (PyStr ''2020'') ''Title'' ''Journal'' ''7'' [] ''1-9'' [] ''IEEE''
      = format_ieee ?as (PyStr ''2020'') ''Title'' ''Journal'' ''7'' [] ''1-9'' []"
    by blast
  also have "\<dots> = Inr (''J. R. Smith et al., '' @ dq @ ''Title,'' @ dq
      @ '' Journal, vol. 7, pp. 1-9, 2020.'')"
    unfolding format_ieee_def c by simp
  finally show ?thesis using s n c by simp
qed

section \<open>Properties of the bibliography\<close>

lemma format_each_seq: "format_each cs style = seq_err (map (\<lambda>c. format_record c style) cs)"
  by (induction cs) (auto split: sum.splits)

lemma seq_err_Inr: "seq_err (map Inr xs) = Inr xs"
  by (induction xs) auto

lemma seq_err_Inl: "Inl e \<in> set rs \<Longrightarrow> \<exists>e'. seq_err rs = Inl e'"
  by (induction rs) (auto split: sum.splits)

lemma generate_bibliography_raises:
  "c \<in> set citations \<Longrightarrow> format_record c style = Inl e \<Longrightarrow>
     \<exists>e'. generate_bibliography citations style = Inl e'"
proof -
  assume "c \<in> set citations" "format_record c style = Inl e"
  then have "Inl e \<in> set (map (\<lambda>c. format_record c style) citations)"
    by force
  from seq_err_Inl [OF this] show ?thesis
    by (auto simp: generate_bibliography_def format_each_seq)
qed

text \<open>
  C6. When \<open>formatted\<close> are the formatted strings of the records, in the order of the
  records, the bibliography is these strings sorted as strings (the order on strings is
  the lexicographic order of the code points) and joined by two newlines: the entries
  joined are a sorted rearrangement of \<open>formatted\<close>. For no record at all the
  bibliography is the empty string.
\<close>

theorem generate_bibliography_sorted_joined:
  "(map (\<lambda>c. format_record c style) citations = map Inr formatted \<longrightarrow>
      generate_bibliography citations style = Inr (join [CHR 0x0A, CHR 0x0A] (sort formatted))
      \<and> sorted (sort formatted) \<and> mset (sort formatted) = mset formatted)
   \<and> generate_bibliography [] style = Inr []"
  by (simp add: generate_bibliography_def format_each_seq seq_err_Inr)

theorem generate_bibliography_sorted_joined_witness:
  "map (\<lambda>c. format_record c ''APA 7th'')
      [rec_of [''Smith''] (PyInt 2020) ''T'', rec_of [''Adams''] (PyInt 2021) ''U'']
     = map Inr [''Smith (2020). T.'', ''Adams (2021). U.'']
   \<and> generate_bibliography
        [rec_of [''Smith''] (PyInt 2020) ''T'', rec_of [''Adams''] (PyInt 2021) ''U''] ''APA 7th''
     = Inr (''Adams (2021). U.'' @ [CHR 0x0A, CHR 0x0A] @ ''Smith (2020). T.'')"
proof -
  have h: "map (\<lambda>c. format_record c ''APA 7th'')
      [rec_of [''Smith''] (PyInt 2020) ''T'', rec_of [''Adams''] (PyInt 2021) ''U'']
     = map Inr [''Smith (2020). T.'', ''Adams (2021). U.'']"
    by (simp add: format_record_def rec_of_def dict_get_def format_citation_def
        formatters_def format_apa_def apa_author_str_def py_get_def str_int_def str_nat.simps
        digit_char_def)
  from generate_bibliography_sorted_joined [of "''APA 7th''"
      "[rec_of [''Smith''] (PyInt 2020) ''T'', rec_of [''Adams''] (PyInt 2021) ''U'']"
      "[''Smith (2020). T.'', ''Adams (2021). U.'']"] h
  have "generate_bibliography
        [rec_of [''Smith''] (PyInt 2020) ''T'', rec_of [''Adams''] (PyInt 2021) ''U''] ''APA 7th''
     = Inr (join [CHR 0x0A, CHR 0x0A] (sort [''Smith (2020). T.'', ''Adams (2021). U.'']))"
    by blast
  with h show ?thesis by simp
qed

section \<open>Properties of the validators\<close>

lemma int_of_str_empty: "int_of_str [] = Inl ValueError"
  by (simp add: int_of_str_def int_strip_def)

lemma int_of_str_2023: "int_of_str ''2023'' = Inr 2023"
  by (simp add: int_of_str_def int_strip_def is_int_space_def is_digit_def nat_of_digits_def
      digit_val_def max_str_digits_def)

lemma int_of_str_separator: "int_of_str (CHR 0x1C # ''2023'') = Inl ValueError"
  by (simp add: int_of_str_def int_strip_def is_int_space_def is_digit_def)

text \<open>
  C2, as stated, fails: \<^verbatim>\<open>validate_citation\<close> accepts a record of the year 1800 with all
  required fields, in the year 2025, whether the year is an integer or a string. The band
  from 1900 to 2030 is that of \<^verbatim>\<open>Validators.validate_year\<close>, which rejects 1800.
\<close>

theorem validate_citation_accepts_1800:
  "validate_citation 2025 (rec_of [''Smith, J.''] (PyInt 1800) ''Test Article'')
   \<and> validate_citation 2025 (rec_of [''Smith, J.''] (PyStr ''1800'') ''Test Article'')
   \<and> \<not> validate_year (PyInt 1800)"
  by (simp add: validate_citation_def validate_year_def rec_of_def int_of_str_def int_strip_def
      is_int_space_def is_digit_def nat_of_digits_def digit_val_def max_str_digits_def)

text \<open>
  C2, amended. For a record with authors, a title and a year that \<^verbatim>\<open>int\<close> reads as \<open>n\<close>,
  \<^verbatim>\<open>validate_citation\<close> returns true exactly when \<open>n\<close> lies between 1500 and the year
  after the current one, and \<^verbatim>\<open>validate_year\<close> on that year returns true exactly when
  \<open>n\<close> lies between 1900 and 2030.
\<close>

theorem validate_citation_year_band:
  assumes "c_authors c = Some a" "a \<noteq> []" "c_title c = Some t" "t \<noteq> []"
    "c_year c = Some y" "py_int y = Inr n"
  shows "validate_citation now_year c = (1500 \<le> n \<and> n \<le> now_year + 1)
    \<and> validate_year y = (1900 \<le> n \<and> n \<le> 2030)"
proof -
  have "py_truthy y \<or> n = 0"
    using assms(6) by (cases y) (auto simp: int_of_str_empty)
  then have "validate_citation now_year c = (1500 \<le> n \<and> n \<le> now_year + 1)"
    using assms by (auto simp: validate_citation_def)
  moreover have "validate_year y = (1900 \<le> n \<and> n \<le> 2030)"
    using assms(6) by (simp add: validate_year_def)
  ultimately show ?thesis by simp
qed

theorem validate_citation_year_band_witness:
  "c_authors (rec_of [''Smith, J.''] (PyStr ''2023'') ''Test Article'') = Some [''Smith, J.'']
   \<and> [''Smith, J.''] \<noteq> []
   \<and> c_title (rec_of [''Smith, J.''] (PyStr ''2023'') ''Test Article'') = Some ''Test Article''
   \<and> ''Test Article'' \<noteq> []
   \<and> c_year (rec_of [''Smith, J.''] (PyStr ''2023'') ''Test Article'') = Some (PyStr ''2023'')
   \<and> py_int (PyStr ''2023'') = Inr 2023
   \<and> validate_citation 2025 (rec_of [''Smith, J.''] (PyStr ''2023'') ''Test Article'')
   \<and> validate_year (PyStr ''2023'')"
proof -
  let ?c = "rec_of [''Smith, J.''] (PyStr ''2023'') ''Test Article''"
  have h: "c_authors ?c = Some [''Smith, J.'']" "[''Smith, J.''] \<noteq> []"
    "c_title ?c = Some ''Test Article''" "''Test Article'' \<noteq> []"
    "c_year ?c = Some (PyStr ''2023'')" "py_int (PyStr ''2023'') = Inr 2023"
    by (simp_all add: rec_of_def int_of_str_2023)
  from validate_citation_year_band [OF h, of 2025] h show ?thesis by simp
qed

section \<open>Properties of the extractor\<close>

lemmas rx_eval = extract_citations_def findall_def findall_at.simps pattern1_def pattern2_def
  in_text_of_def numbered_of_def is_upper_def is_digit_def is_space_def is_lower_def
  is_author_char_def strip_def

text \<open>
  C3. On the text of the spec's example the code reports the numbered mention only: in
  \<open>Smith (2023)\<close> the parenthesis opens on a digit, and the first pattern wants a capital
  letter there. The same holds on the text of the repository's own test
  \<^verbatim>\<open>test_extract_citations\<close>, which expects two mentions or more and gets none.
\<close>

theorem extract_citations_spec_example:
  "extract_citations spec_example_text = [Numbered ''4'']
   \<and> extract_citations test_extract_text = []"
  by (simp add: spec_example_text_def test_extract_text_def rx_eval)

lemma take_takeWhile: "k \<le> length (takeWhile P s) \<Longrightarrow> \<forall>c\<in>set (take k s). P c"
  by (induction s arbitrary: k) (auto simp: take_Cons split: nat.splits if_splits)

lemma rmatch_consumed:
  "(g, rest) \<in> set (rmatch r s) \<Longrightarrow> \<exists>m. s = m @ rest \<and> (\<forall>c\<in>set m. consumes r c)"
proof (induction r s arbitrary: g rest rule: rmatch.induct)
  case (1 c s)
  then show ?case by (cases s) (auto split: if_splits)
next
  case (2 P s)
  then show ?case by (cases s) (auto split: if_splits)
next
  case (3 P s)
  then obtain k where k: "rest = drop k s" "k \<le> length (takeWhile P s)" by auto
  from take_takeWhile [OF k(2)] have "\<forall>c\<in>set (take k s). consumes (Plus P) c" by simp
  moreover have "s = take k s @ rest" using k(1) by simp
  ultimately show ?case by blast
next
  case (4 P s)
  then obtain k where k: "rest = drop k s" "k \<le> length (takeWhile P s)" by auto
  from take_takeWhile [OF k(2)] have "\<forall>c\<in>set (take k s). consumes (Star P) c" by simp
  moreover have "s = take k s @ rest" using k(1) by simp
  ultimately show ?case by blast
next
  case (5 n P s)
  then have k: "rest = drop n s" "n \<le> length (takeWhile P s)" by (auto split: if_splits)
  from take_takeWhile [OF k(2)] have "\<forall>c\<in>set (take n s). consumes (Rep n P) c" by simp
  moreover have "s = take n s @ rest" using k(1) by simp
  ultimately show ?case by blast
next
  case (6 r s)
  from "6.prems" have "(g, rest) \<in> set (rmatch r s) \<or> (g = [] \<and> rest = s)" by auto
  then show ?case
  proof
    assume "(g, rest) \<in> set (rmatch r s)"
    from "6.IH" [OF this] show ?thesis by simp
  next
    assume "g = [] \<and> rest = s"
    then have "s = [] @ rest \<and> (\<forall>c\<in>set []. consumes (Opt r) c)" by simp
    then show ?thesis by blast
  qed
next
  case (7 s)
  then have "s = [] @ rest \<and> (\<forall>c\<in>set []. consumes (Seq []) c)" by simp
  then show ?case by blast
next
  case (8 r rs s)
  from "8.prems" obtain g1 s1 g2 where a: "(g1, s1) \<in> set (rmatch r s)"
    and b: "(g2, rest) \<in> set (rmatch (Seq rs) s1)" by auto
  from "8.IH"(1) [OF a] obtain m1 where m1: "s = m1 @ s1" "\<forall>c\<in>set m1. consumes r c" by blast
  from "8.IH"(2) [OF a _ b] obtain m2 where m2: "s1 = m2 @ rest" "\<forall>c\<in>set m2. consumes (Seq rs) c"
    by auto
  have "s = (m1 @ m2) @ rest \<and> (\<forall>c\<in>set (m1 @ m2). consumes (Seq (r # rs)) c)"
    using m1 m2 by auto
  then show ?case by blast
next
  case (9 r s)
  from "9.prems" obtain g' where "(g', rest) \<in> set (rmatch r s)" by auto
  from "9.IH" [OF this] show ?case by simp
qed
lemma rmatch_suffix: "(g, rest) \<in> set (rmatch r s) \<Longrightarrow> rest = drop (length s - length rest) s"
proof -
  assume "(g, rest) \<in> set (rmatch r s)"
  from rmatch_consumed [OF this] obtain m where "s = m @ rest" by blast
  then show ?thesis by simp
qed

lemma findall_at_nil: "rmatch r [] = [] \<Longrightarrow> findall_at r off [] = []"
  by (simp add: findall_at.simps [of r off "[]"])

lemma findall_at_skip:
  "rmatch r (x # xs) = [] \<Longrightarrow> findall_at r off (x # xs) = findall_at r (Suc off) xs"
  by (simp add: findall_at.simps [of r off "x # xs"])

lemma findall_at_match:
  "rmatch r s = (g, rest) # alts \<Longrightarrow> length rest < length s \<Longrightarrow>
     findall_at r off s = (off, g) # findall_at r (off + (length s - length rest)) rest"
  by (simp add: findall_at.simps [of r off s])

lemma findall_at_empty_match:
  "rmatch r s = (g, rest) # alts \<Longrightarrow> \<not> length rest < length s \<Longrightarrow>
     findall_at r off s
       = (off, g) # (case s of [] \<Rightarrow> [] | x # xs \<Rightarrow> findall_at r (Suc off) xs)"
  by (simp add: findall_at.simps [of r off s])

lemma findall_at_ge: "(p, g) \<in> set (findall_at r off s) \<Longrightarrow> off \<le> p"
proof (induction r off s rule: findall_at.induct)
  case (1 r off s)
  show ?case
  proof (cases "rmatch r s")
    case Nil
    show ?thesis
    proof (cases s)
      case Nil
      with \<open>rmatch r s = []\<close> "1.prems" show ?thesis by (simp add: findall_at_nil)
    next
      case (Cons x xs)
      with \<open>rmatch r s = []\<close> "1.prems" have "(p, g) \<in> set (findall_at r (Suc off) xs)"
        by (simp add: findall_at_skip)
      from "1.IH"(1) [OF \<open>rmatch r s = []\<close> Cons this] show ?thesis by simp
    qed
  next
    case (Cons a alts)
    obtain g' rest where a: "a = (g', rest)" by (cases a)
    note m = Cons [unfolded a]
    show ?thesis
    proof (cases "length rest < length s")
      case True
      from "1.prems" findall_at_match [OF m True]
      have "(p, g) = (off, g') \<or> (p, g) \<in> set (findall_at r (off + (length s - length rest)) rest)"
        by auto
      then show ?thesis
      proof
        assume "(p, g) = (off, g')" then show ?thesis by simp
      next
        assume "(p, g) \<in> set (findall_at r (off + (length s - length rest)) rest)"
        from "1.IH"(2) [OF Cons a [symmetric] True this] show ?thesis by simp
      qed
    next
      case False
      show ?thesis
      proof (cases s)
        case Nil
        with "1.prems" findall_at_empty_match [OF m False] show ?thesis by auto
      next
        case (Cons x xs)
        with "1.prems" findall_at_empty_match [OF m False]
        have "(p, g) = (off, g') \<or> (p, g) \<in> set (findall_at r (Suc off) xs)"
          by auto
        then show ?thesis
        proof
          assume "(p, g) = (off, g')" then show ?thesis by simp
        next
          assume "(p, g) \<in> set (findall_at r (Suc off) xs)"
          from "1.IH"(3) [OF \<open>rmatch r s = a # alts\<close> a [symmetric] False Cons this]
          show ?thesis by simp
        qed
      qed
    qed
  qed
qed
lemma findall_at_sorted: "sorted_wrt (<) (map fst (findall_at r off s))"
proof (induction r off s rule: findall_at.induct)
  case (1 r off s)
  show ?case
  proof (cases "rmatch r s")
    case Nil
    show ?thesis
    proof (cases s)
      case Nil
      with \<open>rmatch r s = []\<close> show ?thesis by (simp add: findall_at_nil)
    next
      case (Cons x xs)
      from "1.IH"(1) [OF \<open>rmatch r s = []\<close> Cons] \<open>rmatch r s = []\<close> Cons
      show ?thesis by (simp add: findall_at_skip)
    qed
  next
    case (Cons a alts)
    obtain g' rest where a: "a = (g', rest)" by (cases a)
    note m = Cons [unfolded a]
    show ?thesis
    proof (cases "length rest < length s")
      case True
      have "\<forall>p\<in>set (map fst (findall_at r (off + (length s - length rest)) rest)). off < p"
        using True by (fastforce dest: findall_at_ge)
      with "1.IH"(2) [OF Cons a [symmetric] True] findall_at_match [OF m True]
      show ?thesis by simp
    next
      case False
      show ?thesis
      proof (cases s)
        case Nil
        with findall_at_empty_match [OF m False] show ?thesis by simp
      next
        case (Cons x xs)
        have "\<forall>p\<in>set (map fst (findall_at r (Suc off) xs)). off < p"
          by (fastforce dest: findall_at_ge)
        with "1.IH"(3) [OF \<open>rmatch r s = a # alts\<close> a [symmetric] False Cons]
          findall_at_empty_match [OF m False] Cons
        show ?thesis by simp
      qed
    qed
  qed
qed

lemma findall_at_occurs:
  "(p, g) \<in> set (findall_at r off s) \<Longrightarrow>
     \<exists>rest alts. rmatch r (drop (p - off) s) = (g, rest) # alts"
proof (induction r off s rule: findall_at.induct)
  case (1 r off s)
  show ?case
  proof (cases "rmatch r s")
    case Nil
    show ?thesis
    proof (cases s)
      case Nil
      with \<open>rmatch r s = []\<close> "1.prems" show ?thesis by (simp add: findall_at_nil)
    next
      case (Cons x xs)
      with \<open>rmatch r s = []\<close> "1.prems" have i: "(p, g) \<in> set (findall_at r (Suc off) xs)"
        by (simp add: findall_at_skip)
      from findall_at_ge [OF i] have "drop (p - off) s = drop (p - Suc off) xs"
        using Cons by (simp add: drop_Cons' Suc_diff_le)
      with "1.IH"(1) [OF \<open>rmatch r s = []\<close> Cons i] show ?thesis by simp
    qed
  next
    case (Cons a alts)
    obtain g' rest where a: "a = (g', rest)" by (cases a)
    note m = Cons [unfolded a]
    show ?thesis
    proof (cases "length rest < length s")
      case True
      let ?k = "length s - length rest"
      from "1.prems" findall_at_match [OF m True]
      have "(p, g) = (off, g') \<or> (p, g) \<in> set (findall_at r (off + ?k) rest)"
        by auto
      then show ?thesis
      proof
        assume "(p, g) = (off, g')" with m show ?thesis by simp
      next
        assume i: "(p, g) \<in> set (findall_at r (off + ?k) rest)"
        have "(g', rest) \<in> set (rmatch r s)" using m by simp
        from rmatch_suffix [OF this] have r: "rest = drop ?k s" .
        from findall_at_ge [OF i] have "p - (off + ?k) + ?k = p - off" by simp
        then have "drop (p - (off + ?k)) (drop ?k s) = drop (p - off) s" by simp
        with r have "drop (p - (off + ?k)) rest = drop (p - off) s" by simp
        with "1.IH"(2) [OF Cons a [symmetric] True i] show ?thesis by simp
      qed
    next
      case False
      show ?thesis
      proof (cases s)
        case Nil
        with "1.prems" findall_at_empty_match [OF m False] m show ?thesis by auto
      next
        case (Cons x xs)
        with "1.prems" findall_at_empty_match [OF m False]
        have "(p, g) = (off, g') \<or> (p, g) \<in> set (findall_at r (Suc off) xs)"
          by auto
        then show ?thesis
        proof
          assume "(p, g) = (off, g')" with m show ?thesis by simp
        next
          assume i: "(p, g) \<in> set (findall_at r (Suc off) xs)"
          from findall_at_ge [OF i] have "drop (p - off) s = drop (p - Suc off) xs"
            using Cons by (simp add: drop_Cons' Suc_diff_le)
          with "1.IH"(3) [OF \<open>rmatch r s = a # alts\<close> a [symmetric] False Cons i]
          show ?thesis by simp
        qed
      qed
    qed
  qed
qed

lemma append_kinds_ordered:
  assumes "\<forall>m\<in>set xs. \<not> is_numbered m" "\<forall>m\<in>set ys. is_numbered m"
    "i < j" "j < length (xs @ ys)" "is_numbered ((xs @ ys) ! i)"
  shows "is_numbered ((xs @ ys) ! j)"
proof -
  have "\<not> i < length xs"
  proof
    assume "i < length xs"
    then have "(xs @ ys) ! i \<in> set xs" by (simp add: nth_append)
    with assms(1,5) show False by blast
  qed
  with assms(3) have "\<not> j < length xs" by simp
  with assms(4) have "(xs @ ys) ! j \<in> set ys" by (simp add: nth_append)
  with assms(2) show ?thesis by blast
qed

text \<open>
  C10. The result of \<^verbatim>\<open>extract_citations\<close> is the list of the in-text mentions, one for
  each match of the first pattern, followed by the list of the numbered mentions, one for
  each match of the second pattern. In each of the two lists the matches stand by
  strictly increasing offset in the text, and each is the match that the pattern finds
  at its offset. So a numbered mention is never followed by an in-text mention, wherever
  the two stand in the text.
\<close>

theorem extract_citations_order:
  "extract_citations text
     = map (in_text_of \<circ> snd) (findall_at pattern1 0 text)
       @ map (numbered_of \<circ> snd) (findall_at pattern2 0 text)
   \<and> sorted_wrt (<) (map fst (findall_at pattern1 0 text))
   \<and> sorted_wrt (<) (map fst (findall_at pattern2 0 text))
   \<and> (\<forall>(p, g)\<in>set (findall_at pattern1 0 text).
         \<exists>rest alts. rmatch pattern1 (drop p text) = (g, rest) # alts)
   \<and> (\<forall>(p, g)\<in>set (findall_at pattern2 0 text).
         \<exists>rest alts. rmatch pattern2 (drop p text) = (g, rest) # alts)
   \<and> (\<forall>m\<in>set (map (in_text_of \<circ> snd) (findall_at pattern1 0 text)). \<not> is_numbered m)
   \<and> (\<forall>m\<in>set (map (numbered_of \<circ> snd) (findall_at pattern2 0 text)). is_numbered m)
   \<and> (\<forall>i j. i < j \<and> j < length (extract_citations text)
         \<and> is_numbered (extract_citations text ! i)
        \<longrightarrow> is_numbered (extract_citations text ! j))"
proof -
  let ?xs = "map (in_text_of \<circ> snd) (findall_at pattern1 0 text)"
  let ?ys = "map (numbered_of \<circ> snd) (findall_at pattern2 0 text)"
  have e: "extract_citations text = ?xs @ ?ys"
    by (simp add: extract_citations_def findall_def)
  have x: "\<forall>m\<in>set ?xs. \<not> is_numbered m" by (simp add: in_text_of_def)
  have y: "\<forall>m\<in>set ?ys. is_numbered m" by (simp add: numbered_of_def)
  have o1: "\<forall>(p, g)\<in>set (findall_at pattern1 0 text).
         \<exists>rest alts. rmatch pattern1 (drop p text) = (g, rest) # alts"
    using findall_at_occurs [of _ _ pattern1 0 "text"] by auto
  have o2: "\<forall>(p, g)\<in>set (findall_at pattern2 0 text).
         \<exists>rest alts. rmatch pattern2 (drop p text) = (g, rest) # alts"
    using findall_at_occurs [of _ _ pattern2 0 "text"] by auto
  have k: "\<forall>i j. i < j \<and> j < length (extract_citations text)
         \<and> is_numbered (extract_citations text ! i)
        \<longrightarrow> is_numbered (extract_citations text ! j)"
    unfolding e using append_kinds_ordered [OF x y] by blast
  from e x y o1 o2 k findall_at_sorted [of pattern1 0 "text"] findall_at_sorted [of pattern2 0 "text"]
  show ?thesis by blast
qed

theorem extract_citations_order_witness:
  "extract_citations ''[1] (Smith 2020) [2] (Lee 2021)''
     = [InText ''Smith'' ''2020'', InText ''Lee'' ''2021'', Numbered ''1'', Numbered ''2'']
   \<and> map fst (findall_at pattern1 0 ''[1] (Smith 2020) [2] (Lee 2021)'') = [4, 21]
   \<and> map fst (findall_at pattern2 0 ''[1] (Smith 2020) [2] (Lee 2021)'') = [0, 17]
   \<and> (2::nat) < 3 \<and> 3 < length (extract_citations ''[1] (Smith 2020) [2] (Lee 2021)'')
   \<and> is_numbered (extract_citations ''[1] (Smith 2020) [2] (Lee 2021)'' ! 2)
   \<and> is_numbered (extract_citations ''[1] (Smith 2020) [2] (Lee 2021)'' ! 3)"
proof -
  let ?t = "''[1] (Smith 2020) [2] (Lee 2021)''"
  have e: "extract_citations ?t
     = [InText ''Smith'' ''2020'', InText ''Lee'' ''2021'', Numbered ''1'', Numbered ''2'']"
    by (simp add: rx_eval)
  have p1: "map fst (findall_at pattern1 0 ?t) = [4, 21]"
    by (simp add: rx_eval)
  have p2: "map fst (findall_at pattern2 0 ?t) = [0, 17]"
    by (simp add: rx_eval)
  have h: "(2::nat) < 3 \<and> 3 < length (extract_citations ?t)
     \<and> is_numbered (extract_citations ?t ! 2)"
    by (simp add: e)
  from extract_citations_order [of ?t]
  have "\<forall>i j. i < j \<and> j < length (extract_citations ?t) \<and> is_numbered (extract_citations ?t ! i)
        \<longrightarrow> is_numbered (extract_citations ?t ! j)"
    by blast
  with h have "is_numbered (extract_citations ?t ! 3)" by blast
  with e p1 p2 h show ?thesis by simp
qed

lemma takeWhile_run:
  "\<forall>c\<in>set xs. P c \<Longrightarrow> \<not> P y \<Longrightarrow> takeWhile P (xs @ y # ys) = xs"
  by (induction xs) auto

lemma rmatch_plus_head:
  "takeWhile P s = a \<Longrightarrow> a \<noteq> [] \<Longrightarrow>
     \<exists>t. rmatch (Plus P) s = ([], drop (length a) s) # t"
proof -
  assume "takeWhile P s = a" "a \<noteq> []"
  then have "1 \<le> length (takeWhile P s)" by (cases a) auto
  then have "[1..<Suc (length (takeWhile P s))] = [1..<length (takeWhile P s)] @ [length (takeWhile P s)]"
    by simp
  then show ?thesis using \<open>takeWhile P s = a\<close> by simp
qed

lemma rmatch_seq_head:
  "rmatch r s = (g1, s1) # t1 \<Longrightarrow> rmatch (Seq rs) s1 = (g2, s2) # t2 \<Longrightarrow> g = g1 @ g2 \<Longrightarrow>
     \<exists>t. rmatch (Seq (r # rs)) s = (g, s2) # t"
  by simp

lemma rmatch_grp_head:
  "rmatch r s = (g, s') # t \<Longrightarrow> s = m @ s' \<Longrightarrow> \<exists>t'. rmatch (Grp r) s = (m # g, s') # t'"
  by simp

lemma digit_not_author: "is_digit c \<Longrightarrow> \<not> is_author_char c"
  by (auto simp: is_digit_def is_author_char_def is_lower_def is_upper_def is_space_def)

lemma digit_not_space: "is_digit c \<Longrightarrow> \<not> is_space c"
  by (auto simp: is_digit_def is_space_def)

lemma pattern2_head:
  assumes "ds \<noteq> []" "\<forall>c\<in>set ds. is_digit c"
  shows "\<exists>t. rmatch pattern2 (CHR ''['' # ds @ CHR '']'' # post) = ([ds], post) # t"
proof -
  let ?s1 = "ds @ CHR '']'' # post"
  have tw: "takeWhile is_digit ?s1 = ds"
    using assms(2) by (intro takeWhile_run) (auto simp: is_digit_def)
  have "\<exists>t. rmatch (Plus is_digit) ?s1 = ([], drop (length ds) ?s1) # t"
    by (rule rmatch_plus_head [OF tw assms(1)])
  then obtain t1 where p: "rmatch (Plus is_digit) ?s1 = ([], CHR '']'' # post) # t1"
    by auto
  have "\<exists>t. rmatch (Grp (Plus is_digit)) ?s1 = ([ds], CHR '']'' # post) # t"
    by (rule rmatch_grp_head [OF p]) simp
  then obtain t2 where g: "rmatch (Grp (Plus is_digit)) ?s1 = ([ds], CHR '']'' # post) # t2"
    by blast
  have c: "rmatch (Seq [Chr CHR '']'']) (CHR '']'' # post) = ([], post) # []" by simp
  have "\<exists>t. rmatch (Seq [Grp (Plus is_digit), Chr CHR '']'']) ?s1 = ([ds], post) # t"
    by (rule rmatch_seq_head [OF g c]) simp
  then obtain t3 where
    b: "rmatch (Seq [Grp (Plus is_digit), Chr CHR '']'']) ?s1 = ([ds], post) # t3" by blast
  have o: "rmatch (Chr CHR ''['') (CHR ''['' # ?s1) = ([], ?s1) # []" by simp
  show ?thesis
    unfolding pattern2_def by (rule rmatch_seq_head [OF o b]) simp
qed
lemma pattern1_tail:
  assumes "length yr = 4" "\<forall>c\<in>set yr. is_digit c"
  shows "rmatch (Seq [Opt (Chr CHR '',''), Star is_space, Grp (Rep 4 is_digit), Chr CHR '')''])
           (yr @ CHR '')'' # post) = [([yr], post)]"
proof -
  from assms(1) obtain d yr' where yr: "yr = d # yr'" by (cases yr) auto
  with assms(2) have d: "is_digit d" by simp
  then have dc: "d \<noteq> CHR '',''" by (auto simp: is_digit_def)
  have ds: "\<not> is_space d" using d by (rule digit_not_space)
  have tw: "takeWhile is_digit (yr @ CHR '')'' # post) = yr"
    using assms(2) by (intro takeWhile_run) (auto simp: is_digit_def)
  have o: "rmatch (Opt (Chr CHR '','')) (yr @ CHR '')'' # post) = [([], yr @ CHR '')'' # post)]"
    using dc by (simp add: yr)
  have st: "rmatch (Star is_space) (yr @ CHR '')'' # post) = [([], yr @ CHR '')'' # post)]"
    using ds by (simp add: yr)
  have g: "rmatch (Grp (Rep 4 is_digit)) (yr @ CHR '')'' # post) = [([yr], CHR '')'' # post)]"
    using assms(1) by (simp add: tw)
  show ?thesis
    by (simp add: o st g del: rmatch.simps(4,5,6,9))
qed

lemma pattern1_head:
  assumes "is_upper u" "cs \<noteq> []" "\<forall>c\<in>set cs. is_author_char c"
    "length yr = 4" "\<forall>c\<in>set yr. is_digit c"
  shows "\<exists>t. rmatch pattern1 (CHR ''('' # u # cs @ yr @ CHR '')'' # post) = ([u # cs, yr], post) # t"
proof -
  let ?s3 = "yr @ CHR '')'' # post"
  let ?s2 = "cs @ ?s3"
  from assms(4) obtain d yr' where yr: "yr = d # yr'" by (cases yr) auto
  with assms(5) have "is_digit d" by simp
  then have nd: "\<not> is_author_char d" by (rule digit_not_author)
  have "takeWhile is_author_char (cs @ d # yr' @ CHR '')'' # post) = cs"
    by (rule takeWhile_run [OF assms(3) nd])
  then have tw: "takeWhile is_author_char ?s2 = cs" by (simp add: yr)
  have "\<exists>t. rmatch (Plus is_author_char) ?s2 = ([], drop (length cs) ?s2) # t"
    by (rule rmatch_plus_head [OF tw assms(2)])
  then obtain t1 where p: "rmatch (Plus is_author_char) ?s2 = ([], ?s3) # t1"
    by auto
  have e: "rmatch (Seq []) ?s3 = ([], ?s3) # []" by simp
  have "\<exists>t. rmatch (Seq [Plus is_author_char]) ?s2 = ([], ?s3) # t"
    by (rule rmatch_seq_head [OF p e]) simp
  then obtain t2 where p': "rmatch (Seq [Plus is_author_char]) ?s2 = ([], ?s3) # t2"
    by blast
  have u: "rmatch (Set is_upper) (u # ?s2) = ([], ?s2) # []" using assms(1) by simp
  have "\<exists>t. rmatch (Seq [Set is_upper, Plus is_author_char]) (u # ?s2) = ([], ?s3) # t"
    by (rule rmatch_seq_head [OF u p']) simp
  then obtain t3 where
    i: "rmatch (Seq [Set is_upper, Plus is_author_char]) (u # ?s2) = ([], ?s3) # t3" by blast
  have "\<exists>t. rmatch (Grp (Seq [Set is_upper, Plus is_author_char])) (u # ?s2)
      = ([u # cs], ?s3) # t"
    by (rule rmatch_grp_head [OF i]) simp
  then obtain t4 where
    g: "rmatch (Grp (Seq [Set is_upper, Plus is_author_char])) (u # ?s2) = ([u # cs], ?s3) # t4"
    by blast
  note tl = pattern1_tail [OF assms(4,5), of post]
  have "\<exists>t. rmatch (Seq [Grp (Seq [Set is_upper, Plus is_author_char]), Opt (Chr CHR '',''),
          Star is_space, Grp (Rep 4 is_digit), Chr CHR '')'']) (u # ?s2) = ([u # cs, yr], post) # t"
    by (rule rmatch_seq_head [OF g tl]) simp
  then obtain t5 where
    b: "rmatch (Seq [Grp (Seq [Set is_upper, Plus is_author_char]), Opt (Chr CHR '',''),
          Star is_space, Grp (Rep 4 is_digit), Chr CHR '')'']) (u # ?s2) = ([u # cs, yr], post) # t5"
    by blast
  have c: "rmatch (Chr CHR ''('') (CHR ''('' # u # ?s2) = ([], u # ?s2) # []" by simp
  show ?thesis
    unfolding pattern1_def by (rule rmatch_seq_head [OF c b]) simp
qed

lemma rmatch_starts_once:
  assumes "(g, rest) \<in> set (rmatch (Seq (Chr c0 # rs)) s)" "\<forall>c. consumes (Seq rs) c \<longrightarrow> c \<noteq> c0"
  shows "\<exists>m. s = c0 # m @ rest \<and> c0 \<notin> set m"
proof -
  from assms(1) obtain s1 g2 where s: "s = c0 # s1" and m: "(g2, rest) \<in> set (rmatch (Seq rs) s1)"
    by (cases s) (auto split: if_splits)
  from rmatch_consumed [OF m] obtain m' where "s1 = m' @ rest" "\<forall>c\<in>set m'. consumes (Seq rs) c"
    by blast
  with assms(2) s have "s = c0 # m' @ rest \<and> c0 \<notin> set m'" by auto
  then show ?thesis by blast
qed

lemma findall_at_finds:
  assumes noov: "\<And>s g rest. (g, rest) \<in> set (rmatch r s) \<Longrightarrow> \<exists>m. s = c0 # m @ rest \<and> c0 \<notin> set m"
    and hd: "rmatch r (c0 # w @ post) = (g, post) # t"
  shows "(off + length pre, g) \<in> set (findall_at r off (pre @ c0 # w @ post))"
proof (induction "length pre" arbitrary: pre off rule: less_induct)
  case less
  let ?M = "c0 # w @ post"
  show ?case
  proof (cases pre)
    case Nil
    have "length post < length ?M" by simp
    from findall_at_match [OF hd this, of off] Nil show ?thesis by simp
  next
    case (Cons x pre')
    show ?thesis
    proof (cases "rmatch r (pre @ ?M)")
      case Nil
      then have "findall_at r off (pre @ ?M) = findall_at r (Suc off) (pre' @ ?M)"
        using Cons by (simp add: findall_at_skip)
      moreover have "(Suc off + length pre', g) \<in> set (findall_at r (Suc off) (pre' @ ?M))"
        using Cons by (intro less) simp
      ultimately show ?thesis using Cons by simp
    next
      case (Cons a alts)
      obtain g' rest where a: "a = (g', rest)" by (cases a)
      note m = Cons [unfolded a]
      then have "(g', rest) \<in> set (rmatch r (pre @ ?M))" by simp
      from noov [OF this] obtain b where b: "pre @ ?M = c0 # b @ rest" "c0 \<notin> set b" by blast
      then have eq: "pre @ ?M = (c0 # b) @ rest" by simp
      have "\<exists>us. pre = (c0 # b) @ us \<and> us @ ?M = rest"
      proof -
        from eq [unfolded append_eq_append_conv2]
        obtain us where "pre = (c0 # b) @ us \<and> us @ ?M = rest \<or> pre @ us = c0 # b \<and> ?M = us @ rest"
          by blast
        then show ?thesis
        proof
          assume "pre = (c0 # b) @ us \<and> us @ ?M = rest" then show ?thesis by blast
        next
          assume h: "pre @ us = c0 # b \<and> ?M = us @ rest"
          show ?thesis
          proof (cases us)
            case Nil
            with h have "pre = (c0 # b) @ [] \<and> [] @ ?M = rest" by simp
            then show ?thesis by blast
          next
            case (Cons y us')
            with h have "y = c0" by simp
            with h Cons \<open>pre = x # pre'\<close> have "b = pre' @ c0 # us'" by simp
            with b(2) show ?thesis by simp
          qed
        qed
      qed
      then obtain us where us: "pre = (c0 # b) @ us" "rest = us @ ?M" by blast
      have lt: "length rest < length (pre @ ?M)" using us by simp
      have k': "length (pre @ ?M) - length (us @ ?M) = Suc (length b)" using us by simp
      have "findall_at r off (pre @ ?M)
          = (off, g') # findall_at r (off + (length (pre @ ?M) - length rest)) rest"
        by (rule findall_at_match [OF m lt])
      then have "findall_at r off (pre @ ?M)
          = (off, g') # findall_at r (off + (length (pre @ ?M) - length (us @ ?M))) (us @ ?M)"
        by (simp only: us(2))
      then have f: "findall_at r off (pre @ ?M)
          = (off, g') # findall_at r (off + Suc (length b)) (us @ ?M)"
        by (simp only: k')
      have "length us < length pre" using us by simp
      from less [OF this, of "off + Suc (length b)"]
      have mem: "(off + Suc (length b) + length us, g)
          \<in> set (findall_at r (off + Suc (length b)) (us @ ?M))" .
      have eqn: "off + Suc (length b) + length us = off + length pre" using us by simp
      from mem have "(off + length pre, g) \<in> set (findall_at r (off + Suc (length b)) (us @ ?M))"
        unfolding eqn .
      then show ?thesis unfolding f by (rule list.set_intros(2))
    qed
  qed
qed

lemma pattern1_starts_once:
  "(g, rest) \<in> set (rmatch pattern1 s) \<Longrightarrow> \<exists>m. s = CHR ''('' # m @ rest \<and> CHR ''('' \<notin> set m"
  unfolding pattern1_def
  by (erule rmatch_starts_once)
    (auto simp: is_upper_def is_author_char_def is_lower_def is_space_def is_digit_def)

lemma pattern2_starts_once:
  "(g, rest) \<in> set (rmatch pattern2 s) \<Longrightarrow> \<exists>m. s = CHR ''['' # m @ rest \<and> CHR ''['' \<notin> set m"
  unfolding pattern2_def
  by (erule rmatch_starts_once) (auto simp: is_digit_def)

lemma findall_in_text:
  assumes "is_upper u" "cs \<noteq> []" "\<forall>c\<in>set cs. is_author_char c"
    "length yr = 4" "\<forall>c\<in>set yr. is_digit c"
  shows "(length pre, [u # cs, yr])
    \<in> set (findall_at pattern1 0 (pre @ CHR ''('' # u # cs @ yr @ CHR '')'' # post))"
proof -
  let ?w = "u # cs @ yr @ [CHR '')'']"
  have e: "CHR ''('' # ?w @ post = CHR ''('' # u # cs @ yr @ CHR '')'' # post" by simp
  from pattern1_head [OF assms, of post] obtain t where
    "rmatch pattern1 (CHR ''('' # u # cs @ yr @ CHR '')'' # post) = ([u # cs, yr], post) # t"
    by blast
  then have h: "rmatch pattern1 (CHR ''('' # ?w @ post) = ([u # cs, yr], post) # t"
    by (simp only: e)
  have "(0 + length pre, [u # cs, yr]) \<in> set (findall_at pattern1 0 (pre @ CHR ''('' # ?w @ post))"
    by (rule findall_at_finds [OF pattern1_starts_once h])
  then show ?thesis by (simp only: e add_0)
qed

lemma findall_numbered:
  assumes "ds \<noteq> []" "\<forall>c\<in>set ds. is_digit c"
  shows "(length pre, [ds]) \<in> set (findall_at pattern2 0 (pre @ CHR ''['' # ds @ CHR '']'' # post))"
proof -
  let ?w = "ds @ [CHR '']'']"
  have e: "CHR ''['' # ?w @ post = CHR ''['' # ds @ CHR '']'' # post" by simp
  from pattern2_head [OF assms, of post] obtain t where
    "rmatch pattern2 (CHR ''['' # ds @ CHR '']'' # post) = ([ds], post) # t"
    by blast
  then have h: "rmatch pattern2 (CHR ''['' # ?w @ post) = ([ds], post) # t"
    by (simp only: e)
  have "(0 + length pre, [ds]) \<in> set (findall_at pattern2 0 (pre @ CHR ''['' # ?w @ post))"
    by (rule findall_at_finds [OF pattern2_starts_once h])
  then show ?thesis by (simp only: e add_0)
qed

lemma extract_reports_in_text:
  assumes "is_upper u" "cs \<noteq> []" "\<forall>c\<in>set cs. is_author_char c"
    "length yr = 4" "\<forall>c\<in>set yr. is_digit c"
  shows "InText (strip (u # cs)) yr
    \<in> set (extract_citations (pre @ CHR ''('' # u # cs @ yr @ CHR '')'' # post))"
proof -
  let ?t = "pre @ CHR ''('' # u # cs @ yr @ CHR '')'' # post"
  from findall_in_text [OF assms] have "[u # cs, yr] \<in> set (findall pattern1 ?t)"
    unfolding findall_def by force
  then have "in_text_of [u # cs, yr] \<in> set (map in_text_of (findall pattern1 ?t))"
    by (simp only: set_map) (rule imageI)
  then show ?thesis by (simp add: extract_citations_def in_text_of_def)
qed

lemma extract_reports_numbered:
  assumes "ds \<noteq> []" "\<forall>c\<in>set ds. is_digit c"
  shows "Numbered ds \<in> set (extract_citations (pre @ CHR ''['' # ds @ CHR '']'' # post))"
proof -
  let ?t = "pre @ CHR ''['' # ds @ CHR '']'' # post"
  from findall_numbered [OF assms] have "[ds] \<in> set (findall pattern2 ?t)"
    unfolding findall_def by force
  then have "numbered_of [ds] \<in> set (map numbered_of (findall pattern2 ?t))"
    by (simp only: set_map) (rule imageI)
  then show ?thesis by (simp add: extract_citations_def numbered_of_def)
qed

text \<open>
  C4, as stated, fails. In \<open>(Smith, 2023)\<close> the author phrase \<open>Smith\<close> is followed by
  the optional comma, a space and the year, and the specification wants the authors
  \<open>Smith\<close>;
  the code reports \<open>Smith,\<close>: the greedy class of the phrase holds the comma and the
  whitespace, so the group takes them and \<^verbatim>\<open>,?\s*\<close> match nothing. In \<open>[007]\<close>
  the specification wants the parsed integer 7; the number field is the matched text
  \<open>007\<close>.
\<close>

theorem extract_citations_comma_and_digits:
  "extract_citations ''(Smith, 2023)'' = [InText ''Smith,'' ''2023'']
   \<and> InText ''Smith'' ''2023'' \<notin> set (extract_citations ''(Smith, 2023)'')
   \<and> extract_citations ''see [007]'' = [Numbered ''007'']
   \<and> Numbered ''7'' \<notin> set (extract_citations ''see [007]'')"
proof -
  have a: "extract_citations ''(Smith, 2023)'' = [InText ''Smith,'' ''2023'']"
    by (simp add: rx_eval)
  have b: "extract_citations ''see [007]'' = [Numbered ''007'']"
    by (simp add: rx_eval)
  show ?thesis unfolding a b by simp
qed

text \<open>
  C4, amended. Let a text contain an opening parenthesis, a capital letter \<open>u\<close>, one or
  more letters, whitespace characters, ampersands and commas \<open>cs\<close>, four digits \<open>yr\<close>
  and a closing parenthesis. Then an in-text mention is reported whose year is \<open>yr\<close> and
  whose authors are the phrase \<open>u # cs\<close>, all that stands between the parenthesis and the
  year, without its surrounding whitespace; this is stated for the phrases that do not
  end in a comma once trimmed, and nothing is stated for the others. Let a text contain
  an opening bracket, one or more digits \<open>ds\<close> and a closing bracket. Then a numbered
  mention is reported whose number is the text \<open>ds\<close> itself.
\<close>

theorem extract_citations_reports:
  "(is_upper u \<and> cs \<noteq> [] \<and> (\<forall>c\<in>set cs. is_author_char c)
      \<and> last (strip (u # cs)) \<noteq> CHR '','' \<and> length yr = 4 \<and> (\<forall>c\<in>set yr. is_digit c)
     \<longrightarrow> InText (strip (u # cs)) yr
           \<in> set (extract_citations (pre @ CHR ''('' # u # cs @ yr @ CHR '')'' # post)))
   \<and> (ds \<noteq> [] \<and> (\<forall>c\<in>set ds. is_digit c)
     \<longrightarrow> Numbered ds \<in> set (extract_citations (pre' @ CHR ''['' # ds @ CHR '']'' # post')))"
  using extract_reports_in_text [of u cs yr pre post] extract_reports_numbered [of ds pre' post']
  by blast

theorem extract_citations_reports_witness:
  "is_upper CHR ''S'' \<and> ''mith & Jones '' \<noteq> [] \<and> list_all is_author_char ''mith & Jones ''
   \<and> last (strip ''Smith & Jones '') \<noteq> CHR '','' \<and> length ''2021'' = 4
   \<and> list_all is_digit ''2021'' \<and> ''12'' \<noteq> [] \<and> list_all is_digit ''12''
   \<and> InText ''Smith & Jones'' ''2021'' \<in> set (extract_citations ''See (Smith & Jones 2021) and [12].'')
   \<and> Numbered ''12'' \<in> set (extract_citations ''See (Smith & Jones 2021) and [12].'')"
proof -
  have s: "strip ''Smith & Jones '' = ''Smith & Jones''"
    by (simp add: strip_def is_space_def)
  have h1: "is_upper CHR ''S'' \<and> ''mith & Jones '' \<noteq> []
      \<and> (\<forall>c\<in>set ''mith & Jones ''. is_author_char c)
      \<and> last (strip ''Smith & Jones '') \<noteq> CHR '','' \<and> length ''2021'' = 4
      \<and> (\<forall>c\<in>set ''2021''. is_digit c)"
    unfolding s by (simp add: is_upper_def is_author_char_def is_lower_def is_space_def is_digit_def)
  have h2: "''12'' \<noteq> [] \<and> (\<forall>c\<in>set ''12''. is_digit c)"
    by (simp add: is_digit_def)
  note t = extract_citations_reports [of "CHR ''S''" "''mith & Jones ''" "''2021''" "''See ''"
      "'' and [12].''" "''12''" "''See (Smith & Jones 2021) and ''" "''.''"]
  from t h1 have "InText (strip ''Smith & Jones '') ''2021''
      \<in> set (extract_citations (''See '' @ CHR ''('' # CHR ''S'' # ''mith & Jones '' @ ''2021''
          @ CHR '')'' # '' and [12].''))"
    by blast
  then have a: "InText ''Smith & Jones'' ''2021''
      \<in> set (extract_citations ''See (Smith & Jones 2021) and [12].'')"
    unfolding s by simp
  from t h2 have "Numbered ''12''
      \<in> set (extract_citations (''See (Smith & Jones 2021) and '' @ CHR ''['' # ''12''
          @ CHR '']'' # ''.''))"
    by blast
  then have b: "Numbered ''12'' \<in> set (extract_citations ''See (Smith & Jones 2021) and [12].'')"
    by simp
  from h1 h2 a b show ?thesis by (simp add: list_all_iff)
qed

lemma patterns_progress:
  "(g, rest) \<in> set (rmatch pattern1 s) \<Longrightarrow> length rest < length s"
  "(g', rest') \<in> set (rmatch pattern2 s') \<Longrightarrow> length rest' < length s'"
proof -
  assume "(g, rest) \<in> set (rmatch pattern1 s)"
  from pattern1_starts_once [OF this] show "length rest < length s" by auto
next
  assume "(g', rest') \<in> set (rmatch pattern2 s')"
  from pattern2_starts_once [OF this] show "length rest' < length s'" by auto
qed

text \<open>
  Every match of the first pattern has its two groups and every match of the second its
  one group, so \<^verbatim>\<open>match[0]\<close> and \<^verbatim>\<open>match[1]\<close> are always there.
\<close>

lemma rmatch_groups: "(g, rest) \<in> set (rmatch r s) \<Longrightarrow> min_groups r \<le> length g"
proof (induction r s arbitrary: g rest rule: rmatch.induct)
  case (8 r rs s)
  from "8.prems" obtain g1 s1 g2 where a: "(g1, s1) \<in> set (rmatch r s)"
    and b: "(g2, rest) \<in> set (rmatch (Seq rs) s1)" and g: "g = g1 @ g2" by auto
  from "8.IH"(1) [OF a] "8.IH"(2) [OF a _ b] g show ?case by simp
next
  case (9 r s)
  from "9.prems" obtain g' where a: "(g', rest) \<in> set (rmatch r s)" and g: "length g = Suc (length g')"
    by auto
  from "9.IH" [OF a] g show ?case by simp
qed simp_all

lemma patterns_groups:
  "(g, rest) \<in> set (rmatch pattern1 s) \<Longrightarrow> 2 \<le> length g"
  "(g', rest') \<in> set (rmatch pattern2 s') \<Longrightarrow> 1 \<le> length g'"
proof -
  assume "(g, rest) \<in> set (rmatch pattern1 s)"
  from rmatch_groups [OF this] show "2 \<le> length g" by (simp add: pattern1_def)
next
  assume "(g', rest') \<in> set (rmatch pattern2 s')"
  from rmatch_groups [OF this] show "1 \<le> length g'" by (simp add: pattern2_def)
qed

end
